theory Spec2Isabelle
  imports Main "HOL-Library.Word"
begin

unbundle bit_operations_syntax

section \<open>The checksum engine\<close>

text \<open>
  Bytes (the elements of Python's \<open>bytes\<close> and \<open>bytearray\<close>) are 8-bit words; every
  other number of the script is an unbounded Python integer, modelled as \<open>int\<close>.
  On \<open>int\<close>, \<open>AND\<close>, \<open>OR\<close> and \<open>XOR\<close> are Python's \<open>&\<close>, \<open>|\<close> and \<open>^\<close>, and
  \<open>drop_bit n\<close> is Python's \<open>>> n\<close> (floor division by \<open>2 ^ n\<close>).
\<close>

type_synonym byte = "8 word"

definition FIT_HEADER_SIZE :: int where
  "FIT_HEADER_SIZE = 14"

definition FIT_PROTOCOL_VERSION :: int where
  "FIT_PROTOCOL_VERSION = 0x20"

definition FIT_PROFILE_VERSION :: int where
  "FIT_PROFILE_VERSION = 2140"

definition CRC_TABLE :: "int list" where
  "CRC_TABLE =
     [0x0000, 0xCC01, 0xD801, 0x1400, 0xF001, 0x3C00, 0x2800, 0xE401,
      0xA001, 0x6C00, 0x7800, 0xB401, 0x5000, 0x9C01, 0x8801, 0x4400]"

text \<open>
  \<open>calculate_crc(data, crc=0)\<close>: the \<open>for\<close> loop over the bytes is the recursion over
  the list, with the accumulator \<open>crc\<close> threaded through. Both table indices are of the
  form \<open>x & 0xF\<close>, hence inside the table (lemma \<open>crc_index_in_table\<close> below).
\<close>

fun calculate_crc :: "byte list \<Rightarrow> int \<Rightarrow> int" where
  "calculate_crc [] crc = crc"
| "calculate_crc (byte # data) crc =
     (let tmp = CRC_TABLE ! nat (crc AND 0xF);
          crc = (drop_bit 4 crc) AND 0x0FFF;
          crc = (crc XOR tmp) XOR (CRC_TABLE ! nat (uint byte AND 0xF));
          tmp = CRC_TABLE ! nat (crc AND 0xF);
          crc = (drop_bit 4 crc) AND 0x0FFF;
          crc = (crc XOR tmp) XOR (CRC_TABLE ! nat ((drop_bit 4 (uint byte)) AND 0xF))
      in calculate_crc data crc)"

text \<open>
  The checksum as the specification words it, for comparison with \<open>calculate_crc\<close>: the
  table as listed there, one step per nibble (the table entry at the low four bits of
  the accumulator, the accumulator shifted right by four bits and cut to twelve, the two
  combined by exclusive or with the table entry of the nibble), and every byte split
  into its low nibble followed by its high nibble. The arithmetic reading (\<open>mod\<close>,
  \<open>div\<close>) of "low four bits", "shift" and "mask" is used here.
\<close>

definition spec_table :: "int list" where
  "spec_table =
     [0x0000, 0xCC01, 0xD801, 0x1400, 0xF001, 0x3C00, 0x2800, 0xE401,
      0xA001, 0x6C00, 0x7800, 0xB401, 0x5000, 0x9C01, 0x8801, 0x4400]"

definition spec_nibble_step :: "int \<Rightarrow> int \<Rightarrow> int" where
  "spec_nibble_step acc nibble =
     (let fetched = spec_table ! nat (acc mod 16);
          shifted = (acc div 16) mod 4096
      in (shifted XOR fetched) XOR (spec_table ! nat nibble))"

definition spec_nibbles :: "byte \<Rightarrow> int list" where
  "spec_nibbles b = [uint b mod 16, uint b div 16]"

definition spec_checksum :: "byte list \<Rightarrow> int \<Rightarrow> int" where
  "spec_checksum bs seed = foldl spec_nibble_step seed (concat (map spec_nibbles bs))"

section \<open>The binary writer\<close>

text \<open>
  What the script can raise: \<open>struct.error\<close> from \<open>struct.pack\<close> (a value that does not fit
  its format), \<open>KeyError\<close> from the dictionary lookup (with the missing key) and
  \<open>ValueError\<close> from \<open>bytearray.append\<close> (a value outside \<open>range(256)\<close>).
\<close>

datatype error = StructError | KeyError int | ValueError

text \<open>
  Python's \<open>struct.pack\<close> with the little-endian, unpadded prefix \<open><\<close>, for the integer
  formats the script uses: \<open>B\<close> (1 byte), \<open>H\<close> (2 bytes), \<open>I\<close> (4 bytes). It raises
  \<open>struct.error\<close> when a value is outside the unsigned range of its format, and packs
  nothing then. \<open>word_of_int\<close> keeps the low 8 bits.
\<close>

datatype fmt = Fmt_B | Fmt_H | Fmt_I

fun pack_int :: "fmt \<Rightarrow> int \<Rightarrow> error + byte list" where
  "pack_int Fmt_B v =
     (if 0 \<le> v \<and> v \<le> 0xFF then Inr [word_of_int v] else Inl StructError)"
| "pack_int Fmt_H v =
     (if 0 \<le> v \<and> v \<le> 0xFFFF
      then Inr [word_of_int v, word_of_int (drop_bit 8 v)] else Inl StructError)"
| "pack_int Fmt_I v =
     (if 0 \<le> v \<and> v \<le> 0xFFFFFFFF
      then Inr [word_of_int v, word_of_int (drop_bit 8 v),
                word_of_int (drop_bit 16 v), word_of_int (drop_bit 24 v)]
      else Inl StructError)"

fun struct_pack :: "(fmt \<times> int) list \<Rightarrow> error + byte list" where
  "struct_pack [] = Inr []"
| "struct_pack ((f, v) # rest) =
     (case pack_int f v of
        Inl e \<Rightarrow> Inl e
      | Inr bs \<Rightarrow>
          (case struct_pack rest of
             Inl e \<Rightarrow> Inl e
           | Inr bs' \<Rightarrow> Inr (bs @ bs')))"

text \<open>The file type tag \<open>b'.FIT'\<close>, packed by the format item \<open>4s\<close> as its four bytes.\<close>

definition FIT_TAG :: "byte list" where
  "FIT_TAG = [0x2E, 0x46, 0x49, 0x54]"

text \<open>The class \<open>FitWriter\<close> and its constructor \<open>__init__\<close>.\<close>

record FitWriter =
  data :: "byte list"
  local_message_types :: "int \<rightharpoonup> int"
  next_local_id :: int

definition FitWriter_init :: FitWriter where
  "FitWriter_init = \<lparr>data = [], local_message_types = Map.empty, next_local_id = 0\<rparr>"

text \<open>
  The loop of \<open>define_message\<close> over the field descriptors, extending the definition
  record by three bytes per field; it stops at the first descriptor that does not pack.
\<close>

fun pack_fields :: "byte list \<Rightarrow> (int \<times> int \<times> int) list \<Rightarrow> error + byte list" where
  "pack_fields defn [] = Inr defn"
| "pack_fields defn ((field_def_num, field_size, field_type) # field_defs) =
     (case struct_pack [(Fmt_B, field_def_num), (Fmt_B, field_size), (Fmt_B, field_type)] of
        Inl e \<Rightarrow> Inl e
      | Inr bs \<Rightarrow> pack_fields (defn @ bs) field_defs)"

text \<open>
  \<open>define_message(self, global_mesg_num, fields)\<close>, with the parameter \<open>fields\<close>
  written \<open>field_defs\<close>. Every method returns its result (or
  the exception it raised) together with the writer as the call leaves it. The counter
  and the dictionary are assigned before anything is packed, so they are updated also
  when \<open>struct.pack\<close> raises; the buffer is extended only at the end.
\<close>

definition define_message ::
  "FitWriter \<Rightarrow> int \<Rightarrow> (int \<times> int \<times> int) list \<Rightarrow> (error + int) \<times> FitWriter" where
  "define_message self global_mesg_num field_defs =
     (let local_id = next_local_id self;
          self = self\<lparr>next_local_id := next_local_id self + 1\<rparr>;
          self = self\<lparr>local_message_types :=
                        (local_message_types self)(global_mesg_num \<mapsto> local_id)\<rparr>;
          header = 0x40 OR local_id
      in case struct_pack [(Fmt_B, header), (Fmt_B, 0), (Fmt_B, 0),
                           (Fmt_H, global_mesg_num), (Fmt_B, int (length field_defs))] of
           Inl e \<Rightarrow> (Inl e, self)
         | Inr defn \<Rightarrow>
             (case pack_fields defn field_defs of
                Inl e \<Rightarrow> (Inl e, self)
              | Inr defn \<Rightarrow> (Inr local_id, self\<lparr>data := data self @ defn\<rparr>)))"

text \<open>
  \<open>write_data_message(self, global_mesg_num, *values)\<close>. The values are byte strings;
  both branches of the \<open>isinstance\<close> test extend the buffer by the value.
\<close>

fun extend_values :: "byte list \<Rightarrow> byte list list \<Rightarrow> byte list" where
  "extend_values buf [] = buf"
| "extend_values buf (v # values) = extend_values (buf @ v) values"

definition write_data_message ::
  "FitWriter \<Rightarrow> int \<Rightarrow> byte list list \<Rightarrow> (error + unit) \<times> FitWriter" where
  "write_data_message self global_mesg_num values =
     (case local_message_types self global_mesg_num of
        None \<Rightarrow> (Inl (KeyError global_mesg_num), self)
      | Some local_id \<Rightarrow>
          if 0 \<le> local_id \<and> local_id < 256
          then (Inr (),
                self\<lparr>data := extend_values (data self @ [word_of_int local_id]) values\<rparr>)
          else (Inl ValueError, self))"

text \<open>
  \<open>finalize(self)\<close>: the twelve packed header bytes, their checksum, the buffer and the
  buffer's checksum. Nothing of the writer is assigned.
\<close>

definition finalize :: "FitWriter \<Rightarrow> (error + byte list) \<times> FitWriter" where
  "finalize self =
     (case struct_pack [(Fmt_B, FIT_HEADER_SIZE), (Fmt_B, FIT_PROTOCOL_VERSION),
                        (Fmt_H, FIT_PROFILE_VERSION), (Fmt_I, int (length (data self)))] of
        Inl e \<Rightarrow> (Inl e, self)
      | Inr packed \<Rightarrow>
          (let header = packed @ FIT_TAG;
               header_crc = calculate_crc header 0
           in case pack_int Fmt_H header_crc of
                Inl e \<Rightarrow> (Inl e, self)
              | Inr crc_bytes \<Rightarrow>
                  (let header = header @ crc_bytes;
                       data_crc = calculate_crc (data self) 0
                   in case pack_int Fmt_H data_crc of
                        Inl e \<Rightarrow> (Inl e, self)
                      | Inr trailer \<Rightarrow> (Inr (header @ data self @ trailer), self))))"

text \<open>
  A session is a sequence of method calls on one writer, starting from the constructor.
  A call that raises leaves the writer as the exception found it, and the session may
  go on.
\<close>

datatype call =
    Define int "(int \<times> int \<times> int) list"
  | Write int "byte list list"
  | Finalize

fun step :: "FitWriter \<Rightarrow> call \<Rightarrow> FitWriter" where
  "step w (Define g fs) = snd (define_message w g fs)"
| "step w (Write g vs) = snd (write_data_message w g vs)"
| "step w Finalize = snd (finalize w)"

definition run :: "call list \<Rightarrow> FitWriter" where
  "run calls = foldl step FitWriter_init calls"

text \<open>Several \<open>define_message\<close> calls in a row, with the result of each.\<close>

fun define_all ::
  "FitWriter \<Rightarrow> (int \<times> (int \<times> int \<times> int) list) list \<Rightarrow> (error + int) list \<times> FitWriter" where
  "define_all w [] = ([], w)"
| "define_all w ((g, fs) # rest) =
     (let (r, w') = define_message w g fs;
          (rs, w'') = define_all w' rest
      in (r # rs, w''))"

text \<open>
  The arguments of \<open>define_message\<close> that \<open>struct.pack\<close> accepts: a message number that
  fits two bytes, at most 255 field descriptors, each of three numbers that fit a byte.
  \<open>field_bytes\<close> are the three bytes per descriptor, in declaration order.
\<close>

definition fits_u8 :: "int \<Rightarrow> bool" where
  "fits_u8 v = (0 \<le> v \<and> v \<le> 0xFF)"

fun fits_field :: "int \<times> int \<times> int \<Rightarrow> bool" where
  "fits_field (field_def_num, field_size, field_type) =
     (fits_u8 field_def_num \<and> fits_u8 field_size \<and> fits_u8 field_type)"

definition packable :: "int \<Rightarrow> (int \<times> int \<times> int) list \<Rightarrow> bool" where
  "packable g fs = (0 \<le> g \<and> g \<le> 0xFFFF \<and> length fs \<le> 255 \<and> list_all fits_field fs)"

fun packable_schema :: "int \<times> (int \<times> int \<times> int) list \<Rightarrow> bool" where
  "packable_schema (g, fs) = packable g fs"

fun field_triple :: "int \<times> int \<times> int \<Rightarrow> byte list" where
  "field_triple (field_def_num, field_size, field_type) =
     [word_of_int field_def_num, word_of_int field_size, word_of_int field_type]"

definition field_bytes :: "(int \<times> int \<times> int) list \<Rightarrow> byte list" where
  "field_bytes fs = concat (map field_triple fs)"

text \<open>Sixteen schemas, for the message numbers 0 to 15, of one field each.\<close>

definition sixteen_schemas :: "(int \<times> (int \<times> int \<times> int) list) list" where
  "sixteen_schemas =
     [(0, [(0, 1, 0)]), (1, [(0, 1, 0)]), (2, [(0, 1, 0)]), (3, [(0, 1, 0)]),
      (4, [(0, 1, 0)]), (5, [(0, 1, 0)]), (6, [(0, 1, 0)]), (7, [(0, 1, 0)]),
      (8, [(0, 1, 0)]), (9, [(0, 1, 0)]), (10, [(0, 1, 0)]), (11, [(0, 1, 0)]),
      (12, [(0, 1, 0)]), (13, [(0, 1, 0)]), (14, [(0, 1, 0)]), (15, [(0, 1, 0)])]"

text \<open>
  The invariant of the stream ids: no id is held by two message numbers, and every id
  held is below the counter, so that the next id handed out is new.
\<close>

definition ids_unique :: "FitWriter \<Rightarrow> bool" where
  "ids_unique w =
     (\<forall>g g' i. local_message_types w g = Some i \<and> local_message_types w g' = Some i
        \<longrightarrow> g = g')"

definition ids_below_counter :: "FitWriter \<Rightarrow> bool" where
  "ids_below_counter w = (\<forall>g i. local_message_types w g = Some i \<longrightarrow> i < next_local_id w)"

definition writer_inv :: "FitWriter \<Rightarrow> bool" where
  "writer_inv w = (ids_unique w \<and> ids_below_counter w)"

section \<open>Properties of the checksum\<close>

lemma calculate_crc_append:
  "calculate_crc (xs @ ys) crc = calculate_crc ys (calculate_crc xs crc)"
  by (induction xs arbitrary: crc) (simp_all add: Let_def)

lemma and_15_mod: "(x::int) AND 15 = x mod 16"
  using take_bit_eq_mask[of 4 x] by (simp add: take_bit_eq_mod mask_eq_exp_minus_1)

lemma and_4095_mod: "(x::int) AND 4095 = x mod 4096"
  using take_bit_eq_mask[of 12 x] by (simp add: take_bit_eq_mod mask_eq_exp_minus_1)

lemma high_nibble: "(uint (b::byte) div 16) mod 16 = uint b div 16"
proof -
  have "uint b < 256" using uint_bounded[of b] by simp
  then have "uint b div 16 < 16" by simp
  moreover have "0 \<le> uint b div 16" by (simp add: pos_imp_zdiv_nonneg_iff)
  ultimately show ?thesis by simp
qed

text \<open>Every table read of \<open>calculate_crc\<close> is inside the table.\<close>

lemma crc_index_in_table: "nat ((x::int) AND 0xF) < length CRC_TABLE"
  by (simp add: and_15_mod CRC_TABLE_def nat_less_iff)

lemma CRC_TABLE_range: "v \<in> set CRC_TABLE \<Longrightarrow> 0 \<le> v \<and> v < 65536"
  by (auto simp: CRC_TABLE_def)

lemma CRC_TABLE_nth_range:
  "0 \<le> CRC_TABLE ! nat ((x::int) AND 0xF) \<and> CRC_TABLE ! nat (x AND 0xF) < 65536"
  using CRC_TABLE_range[OF nth_mem[OF crc_index_in_table[of x]]] by simp

lemma xor_u16:
  "0 \<le> (a::int) \<Longrightarrow> a < 65536 \<Longrightarrow> 0 \<le> b \<Longrightarrow> b < 65536 \<Longrightarrow> 0 \<le> a XOR b \<and> a XOR b < 65536"
  using XOR_upper[of a 16 b] by simp

lemma nibble_round_range:
  "0 \<le> (((drop_bit 4 (crc::int)) AND 0x0FFF) XOR CRC_TABLE ! nat (crc AND 0xF))
         XOR CRC_TABLE ! nat (n AND 0xF) \<and>
   (((drop_bit 4 crc) AND 0x0FFF) XOR CRC_TABLE ! nat (crc AND 0xF))
         XOR CRC_TABLE ! nat (n AND 0xF) < 65536"
proof -
  have s: "0 \<le> (drop_bit 4 crc) AND 0x0FFF \<and> (drop_bit 4 crc) AND 0x0FFF < 65536"
    by (simp add: and_4095_mod)
  have t: "0 \<le> ((drop_bit 4 crc) AND 0x0FFF) XOR CRC_TABLE ! nat (crc AND 0xF) \<and>
           ((drop_bit 4 crc) AND 0x0FFF) XOR CRC_TABLE ! nat (crc AND 0xF) < 65536"
    using s CRC_TABLE_nth_range[of crc] by (intro xor_u16) simp_all
  show ?thesis
    using t CRC_TABLE_nth_range[of n] by (intro xor_u16) simp_all
qed

lemma calculate_crc_range:
  "0 \<le> crc \<and> crc < 65536 \<Longrightarrow> 0 \<le> calculate_crc bs crc \<and> calculate_crc bs crc < 65536"
proof (induction bs arbitrary: crc)
  case Nil
  then show ?case by simp
next
  case (Cons b bs)
  show ?case
    unfolding calculate_crc.simps Let_def
    by (rule Cons.IH, rule nibble_round_range)
qed

lemma calculate_crc_Cons_range:
  "0 \<le> calculate_crc (b # bs) crc \<and> calculate_crc (b # bs) crc < 65536"
  unfolding calculate_crc.simps Let_def
  by (rule calculate_crc_range, rule nibble_round_range)

lemma calculate_crc_step:
  "calculate_crc (b # bs) crc =
     calculate_crc bs (spec_nibble_step (spec_nibble_step crc (uint b mod 16)) (uint b div 16))"
  by (simp add: spec_nibble_step_def spec_table_def CRC_TABLE_def Let_def and_15_mod and_4095_mod
        drop_bit_eq_div high_nibble)

lemma calculate_crc_refines: "calculate_crc bs seed = spec_checksum bs seed"
proof (induction bs arbitrary: seed)
  case Nil
  then show ?case by (simp add: spec_checksum_def)
next
  case (Cons b bs)
  show ?case
    unfolding calculate_crc_step Cons.IH
    by (simp add: spec_checksum_def spec_nibbles_def)
qed

text \<open>
  Claim C1. For every byte sequence and every 16-bit seed (the accumulator is a 16-bit
  value), \<open>calculate_crc\<close> is the nibble-lookup procedure of the specification (for
  each byte the low nibble first, then the high one; at each nibble the table entry at
  the low four bits of the accumulator, the accumulator shifted right by four bits and
  cut to twelve, and the exclusive or with that entry and with the entry of the nibble),
  over the very table listed there; its result is a 16-bit value; and it is total (a HOL
  function over every list, the empty one included).
\<close>

theorem calculate_crc_nibble_lookup:
  assumes "0 \<le> seed" and "seed < 2 ^ 16"
  shows "calculate_crc B seed = spec_checksum B seed \<and>
         CRC_TABLE = spec_table \<and>
         0 \<le> calculate_crc B seed \<and> calculate_crc B seed < 2 ^ 16"
proof -
  have proc: "calculate_crc B seed = spec_checksum B seed"
    by (rule calculate_crc_refines)
  have tab: "CRC_TABLE = spec_table"
    by (simp add: CRC_TABLE_def spec_table_def)
  from assms have "0 \<le> seed \<and> seed < 65536"
    by simp
  then have "0 \<le> calculate_crc B seed \<and> calculate_crc B seed < 65536"
    by (rule calculate_crc_range)
  then have "0 \<le> calculate_crc B seed" and "calculate_crc B seed < 2 ^ 16"
    by simp_all
  with proc tab show ?thesis
    by (intro conjI)
qed

theorem calculate_crc_nibble_lookup_witness:
  "(0::int) \<le> 0 \<and> (0::int) < 2 ^ 16 \<and>
   calculate_crc [0x0E, 0x20] 0 = spec_checksum [0x0E, 0x20] 0 \<and>
   0 \<le> calculate_crc [0x0E, 0x20] 0 \<and> calculate_crc [0x0E, 0x20] 0 < 2 ^ 16"
proof -
  have h: "(0::int) \<le> 0" "(0::int) < 2 ^ 16"
    by simp_all
  show ?thesis
    using h calculate_crc_nibble_lookup [OF h, of "[0x0E, 0x20]"]
    by (simp del: calculate_crc.simps)
qed

text \<open>
  Claim C10. The checksum of the empty byte sequence is the seed itself, for every seed
  (so in particular for every 16-bit one); with seed 0 it is 0.
\<close>

theorem calculate_crc_empty:
  "calculate_crc [] s = s \<and> calculate_crc [] 0 = 0"
  by simp

text \<open>
  Claim C6. Feeding \<open>B2\<close> to the checksum seeded with the checksum of \<open>B1\<close> gives the
  checksum of \<open>B1 @ B2\<close> computed in one call with seed 0.
\<close>

theorem calculate_crc_streaming:
  "calculate_crc B2 (calculate_crc B1 0) = calculate_crc (B1 @ B2) 0"
  by (simp add: calculate_crc_append)

section \<open>Properties of the writer\<close>

lemma or_0x40_fits: "0 \<le> (n::int) \<Longrightarrow> n \<le> 255 \<Longrightarrow> 0 \<le> 0x40 OR n \<and> 0x40 OR n \<le> 255"
  using OR_upper[of "0x40" 8 n] by simp

lemma pack_fields_ok:
  "list_all fits_field fs \<Longrightarrow> pack_fields defn fs = Inr (defn @ field_bytes fs)"
proof (induction fs arbitrary: defn)
  case Nil
  then show ?case by (simp add: field_bytes_def)
next
  case (Cons f fs)
  obtain a b c where f: "f = (a, b, c)" by (cases f)
  with Cons.prems have "fits_u8 a" "fits_u8 b" "fits_u8 c" "list_all fits_field fs"
    by simp_all
  then show ?case
    using Cons.IH[of "defn @ field_triple f"] f
    by (simp add: fits_u8_def field_bytes_def)
qed

lemma define_message_ok:
  assumes "packable g fs" "0 \<le> next_local_id w" "next_local_id w \<le> 255"
  shows "define_message w g fs =
    (Inr (next_local_id w),
     w\<lparr>next_local_id := next_local_id w + 1,
       local_message_types := (local_message_types w)(g \<mapsto> next_local_id w),
       data := data w @ [word_of_int (0x40 OR next_local_id w), 0, 0,
                         word_of_int g, word_of_int (drop_bit 8 g),
                         word_of_int (int (length fs))] @ field_bytes fs\<rparr>)"
proof -
  from assms(1) have g: "0 \<le> g" "g \<le> 65535" and len: "length fs \<le> 255"
    and fs: "list_all fits_field fs"
    by (simp_all add: packable_def)
  note h = or_0x40_fits[OF assms(2,3)]
  show ?thesis
    using g len h pack_fields_ok[OF fs]
    by (simp add: define_message_def Let_def)
qed

lemma define_message_counter:
  "next_local_id (snd (define_message w g fs)) = next_local_id w + 1"
  by (simp add: define_message_def Let_def split: sum.splits)

lemma define_message_types:
  "local_message_types (snd (define_message w g fs)) =
     (local_message_types w)(g \<mapsto> next_local_id w)"
  by (simp add: define_message_def Let_def split: sum.splits)

lemma write_data_message_counter:
  "next_local_id (snd (write_data_message w g vs)) = next_local_id w"
  by (simp add: write_data_message_def split: option.splits)

lemma write_data_message_types:
  "local_message_types (snd (write_data_message w g vs)) = local_message_types w"
  by (simp add: write_data_message_def split: option.splits)

lemma finalize_state: "snd (finalize w) = w"
  by (simp add: finalize_def Let_def del: calculate_crc.simps split: sum.splits)

lemma extend_values_concat: "extend_values buf vs = buf @ concat vs"
  by (induction vs arbitrary: buf) simp_all

lemma profile_low_byte: "(2140 :: byte) = 0x5C"
  by simp

lemma header_crc_value:
  "calculate_crc [0x0E, 0x20, 0x5C, 0x08, 0, 0, 0, 0, 0x2E, 0x46, 0x49, 0x54] 0 = 0x3B38"
  by code_simp

text \<open>
  Claim C3, as stated, on the freshly constructed writer: \<open>finalize\<close> returns the sixteen
  bytes below, not eighteen. The packed header fields are twelve bytes (1 + 1 + 2 + 4 + 4),
  and with their checksum the header is the fourteen bytes that \<open>FIT_HEADER_SIZE\<close> says.
\<close>

theorem finalize_empty_sixteen_bytes:
  "fst (finalize FitWriter_init) =
     Inr [0x0E, 0x20, 0x5C, 0x08, 0, 0, 0, 0, 0x2E, 0x46, 0x49, 0x54, 0x38, 0x3B, 0, 0] \<and>
   map_sum id length (fst (finalize FitWriter_init)) \<noteq> Inr 18"
  by (simp add: finalize_def FitWriter_init_def FIT_HEADER_SIZE_def FIT_PROTOCOL_VERSION_def
        FIT_PROFILE_VERSION_def FIT_TAG_def Let_def profile_low_byte header_crc_value
        del: calculate_crc.simps(2))

text \<open>
  Claim C3, amended. On the freshly constructed writer, \<open>finalize\<close> succeeds and
  returns exactly 16 bytes: a 14-byte header (header size, protocol version, profile
  version, the payload length field reading 0 in its four bytes, the tag \<open>.FIT\<close>, and the
  header checksum \<open>0x3B38\<close>, low byte first), an empty payload, and a 2-byte trailer that
  is the checksum of the empty byte sequence with seed 0, namely \<open>0x0000\<close>. The writer is
  left as it was.
\<close>

theorem finalize_fresh_writer:
  "finalize FitWriter_init =
     (Inr ([0x0E, 0x20, 0x5C, 0x08] @ [0, 0, 0, 0] @ FIT_TAG @ [0x38, 0x3B] @ [] @ [0, 0]),
      FitWriter_init) \<and>
   map_sum id length (fst (finalize FitWriter_init)) = Inr 16 \<and>
   pack_int Fmt_I 0 = Inr [0, 0, 0, 0] \<and>
   pack_int Fmt_H (calculate_crc [] 0) = Inr [0, 0] \<and>
   calculate_crc [] 0 = 0x0000"
  by (simp add: finalize_def FitWriter_init_def FIT_HEADER_SIZE_def FIT_PROTOCOL_VERSION_def
        FIT_PROFILE_VERSION_def FIT_TAG_def Let_def profile_low_byte header_crc_value
        del: calculate_crc.simps(2))

text \<open>
  Claim C9. \<open>finalize\<close> leaves the writer as it found it (buffer, dictionary and
  counter), so a second \<open>finalize\<close> right after the first returns the same bytes (or
  raises the same error), derived anew from the same buffer, and again leaves the writer
  unchanged.
\<close>

theorem finalize_frame:
  "snd (finalize w) = w \<and>
   fst (finalize (snd (finalize w))) = fst (finalize w) \<and>
   snd (finalize (snd (finalize w))) = w"
  by (simp add: finalize_state)

text \<open>
  Claim C7. A call of \<open>define_message\<close> whose arguments \<open>struct.pack\<close> accepts
  (\<open>packable\<close>), on a writer whose next stream id fits the header byte, returns that
  stream id, maps the message number to it, advances the counter, and appends to the
  buffer the header byte followed by exactly: a reserved byte 0, an architecture byte 0,
  the message number in two bytes, low byte first, the number of fields in one byte, and
  then the three bytes (number, size, type) of each field descriptor, in declaration
  order. This holds for the empty field list as well.
\<close>

theorem define_message_record:
  assumes "packable g fs" and "0 \<le> next_local_id w" and "next_local_id w \<le> 255"
  shows "define_message w g fs =
    (Inr (next_local_id w),
     w\<lparr>next_local_id := next_local_id w + 1,
       local_message_types := (local_message_types w)(g \<mapsto> next_local_id w),
       data := data w @ [word_of_int (0x40 OR next_local_id w)]
                 @ [0, 0, word_of_int (g mod 256), word_of_int (g div 256),
                    word_of_int (int (length fs))]
                 @ concat (map field_triple fs)\<rparr>)"
  using define_message_ok[OF assms]
  by (simp add: field_bytes_def drop_bit_eq_div word_of_int_eq_iff take_bit_eq_mod)

theorem define_message_record_witness:
  "packable 0 [(0, 1, 0), (1, 2, 0x84)] \<and>
   fst (define_message FitWriter_init 0 [(0, 1, 0), (1, 2, 0x84)]) = Inr 0 \<and>
   data (snd (define_message FitWriter_init 0 [(0, 1, 0), (1, 2, 0x84)])) =
     [0x40, 0, 0, 0, 0, 2, 0, 1, 0, 1, 2, 0x84] \<and>
   local_message_types (snd (define_message FitWriter_init 0 [(0, 1, 0), (1, 2, 0x84)])) 0 = Some 0"
proof -
  have p: "packable 0 [(0, 1, 0), (1, 2, 0x84)]"
    by (simp add: packable_def fits_u8_def)
  have n: "0 \<le> next_local_id FitWriter_init" "next_local_id FitWriter_init \<le> 255"
    by (simp_all add: FitWriter_init_def)
  show ?thesis
    using p define_message_record[OF p n]
    by (simp add: FitWriter_init_def)
qed

lemma step_types_None:
  "local_message_types (step w c) g = None \<longleftrightarrow>
     local_message_types w g = None \<and> (\<forall>fs. c \<noteq> Define g fs)"
  by (cases c)
     (auto simp: define_message_types write_data_message_types finalize_state)

lemma foldl_step_types_None:
  "local_message_types (foldl step w calls) g = None \<longleftrightarrow>
     local_message_types w g = None \<and> (\<forall>fs. Define g fs \<notin> set calls)"
proof (induction calls arbitrary: w)
  case Nil
  then show ?case by simp
next
  case (Cons c calls)
  show ?case
    unfolding foldl_Cons Cons.IH step_types_None
    by auto
qed

text \<open>
  Claim C5. In any session in which \<open>define_message\<close> was never called for the message
  number \<open>g\<close>, \<open>write_data_message\<close> for \<open>g\<close> raises \<open>KeyError\<close> (the dictionary lookup
  fails: the undefined-schema error) and leaves the writer, hence the buffer and its
  length, as they were.
\<close>

theorem write_undefined_fails:
  assumes "\<forall>fs. Define g fs \<notin> set calls"
  shows "write_data_message (run calls) g vs = (Inl (KeyError g), run calls) \<and>
         length (data (snd (write_data_message (run calls) g vs))) = length (data (run calls))"
proof -
  have "local_message_types (run calls) g = None"
    unfolding run_def foldl_step_types_None
    using assms by (simp add: FitWriter_init_def)
  then show ?thesis
    by (simp add: write_data_message_def)
qed

theorem write_undefined_fails_witness:
  "fst (write_data_message (run [Define 0 [(0, 1, 0)], Write 0 [ [5] ]]) 26 [ [2] ])
     = Inl (KeyError 26) \<and>
   data (snd (write_data_message (run [Define 0 [(0, 1, 0)], Write 0 [ [5] ]]) 26 [ [2] ]))
     = data (run [Define 0 [(0, 1, 0)], Write 0 [ [5] ]]) \<and>
   data (run [Define 0 [(0, 1, 0)], Write 0 [ [5] ]]) = [0x40, 0, 0, 0, 0, 1, 0, 1, 0, 0, 5]"
proof -
  have d: "\<forall>fs. Define 26 fs \<notin> set [Define 0 [(0, 1, 0)], Write 0 [ [5] ]]"
    by simp
  have r: "data (run [Define 0 [(0, 1, 0)], Write 0 [ [5] ]]) = [0x40, 0, 0, 0, 0, 1, 0, 1, 0, 0, 5]"
    by (simp add: run_def FitWriter_init_def define_message_def write_data_message_def Let_def)
  show ?thesis
    using write_undefined_fails [OF d, of "[ [2] ]"] r by simp
qed

lemma define_all_Cons:
  "define_all w ((g, fs) # rest) =
     (fst (define_message w g fs) # fst (define_all (snd (define_message w g fs)) rest),
      snd (define_all (snd (define_message w g fs)) rest))"
  by (simp add: case_prod_beta)

lemma define_all_counter:
  "next_local_id (snd (define_all w ss)) = next_local_id w + int (length ss)"
proof (induction ss arbitrary: w)
  case Nil
  then show ?case by simp
next
  case (Cons s ss)
  obtain g fs where s: "s = (g, fs)" by (cases s)
  show ?case
    using Cons.IH[of "snd (define_message w g fs)"]
    by (simp add: s define_all_Cons define_message_counter del: define_all.simps)
qed

lemma define_all_ok:
  "list_all packable_schema ss \<Longrightarrow> 0 \<le> next_local_id w
   \<Longrightarrow> next_local_id w + int (length ss) \<le> 256
   \<Longrightarrow> fst (define_all w ss) = map Inr [next_local_id w .. next_local_id w + int (length ss) - 1]"
proof (induction ss arbitrary: w)
  case Nil
  then show ?case by simp
next
  case (Cons s ss)
  obtain g fs where s: "s = (g, fs)" by (cases s)
  let ?w = "snd (define_message w g fs)"
  from Cons.prems s have p: "packable g fs" and rest: "list_all packable_schema ss"
    by simp_all
  from Cons.prems have n: "0 \<le> next_local_id w" "next_local_id w \<le> 255"
    by simp_all
  have r: "fst (define_message w g fs) = Inr (next_local_id w)"
    using define_message_ok[OF p n] by simp
  have c: "next_local_id ?w = next_local_id w + 1"
    by (rule define_message_counter)
  have "fst (define_all ?w ss) = map Inr [next_local_id ?w .. next_local_id ?w + int (length ss) - 1]"
    using Cons.prems by (intro Cons.IH rest) (simp_all add: c)
  then have t: "fst (define_all ?w ss) =
                  map Inr [next_local_id w + 1 .. next_local_id w + int (length ss)]"
    by (simp add: c)
  have u: "[next_local_id w .. next_local_id w + int (length (s # ss)) - 1] =
           next_local_id w # [next_local_id w + 1 .. next_local_id w + int (length ss)]"
    by (subst upto_rec1) simp_all
  show ?case
    unfolding u using r t
    by (simp add: s define_all_Cons del: define_all.simps)
qed

lemma sixteen_schemas_facts:
  "length sixteen_schemas = 16" "list_all packable_schema sixteen_schemas"
  by (simp_all add: sixteen_schemas_def packable_def fits_u8_def)

text \<open>
  Claim C4, as stated, after the sixteen definitions of \<open>sixteen_schemas\<close> on a new
  writer: the seventeenth call of \<open>define_message\<close>, for the message number 16, does not
  fail. It returns the stream id 16. The script has no check of the number of schemas.
\<close>

theorem seventeenth_define_succeeds:
  "fst (define_message (snd (define_all FitWriter_init sixteen_schemas)) 16 [(0, 1, 0)]) = Inr 16"
proof -
  let ?w = "snd (define_all FitWriter_init sixteen_schemas)"
  have n: "next_local_id ?w = 16"
    by (simp add: define_all_counter sixteen_schemas_facts FitWriter_init_def)
  have p: "packable 16 [(0, 1, 0)]"
    by (simp add: packable_def fits_u8_def)
  show ?thesis
    using define_message_ok[OF p, of ?w] n by simp
qed

text \<open>
  Claim C4, amended. On a new writer, sixteen calls of \<open>define_message\<close> with arguments
  that \<open>struct.pack\<close> accepts all succeed and return the stream ids 0 to 15 in order; a
  seventeenth such call succeeds as well, returns the stream id 16 and appends its
  definition record, whose header byte is \<open>0x50\<close> (that is \<open>0x40 | 16\<close>).
\<close>

theorem define_seventeen:
  assumes "length ss = 16" and "list_all packable_schema ss" and "packable g fs"
  shows "fst (define_all FitWriter_init ss) =
           map Inr [0, 1, 2, 3, 4, 5, 6, 7, 8, 9, 10, 11, 12, 13, 14, 15] \<and>
         fst (define_message (snd (define_all FitWriter_init ss)) g fs) = Inr 16 \<and>
         data (snd (define_message (snd (define_all FitWriter_init ss)) g fs)) =
           data (snd (define_all FitWriter_init ss))
             @ [0x50, 0, 0, word_of_int (g mod 256), word_of_int (g div 256),
                word_of_int (int (length fs))]
             @ concat (map field_triple fs)"
proof -
  let ?w = "snd (define_all FitWriter_init ss)"
  have n: "next_local_id ?w = 16"
    by (simp add: define_all_counter assms(1) FitWriter_init_def)
  have "fst (define_all FitWriter_init ss) = map Inr [0 .. 15]"
    using define_all_ok[OF assms(2), of FitWriter_init]
    by (simp add: assms(1) FitWriter_init_def)
  moreover have "[0 .. 15] = [0, 1, 2, 3, 4, 5, 6, 7, 8, 9, 10, 11, 12, 13, 14, 15::int]"
    by code_simp
  ultimately have a: "fst (define_all FitWriter_init ss) =
           map Inr [0, 1, 2, 3, 4, 5, 6, 7, 8, 9, 10, 11, 12, 13, 14, 15]"
    by simp
  have b: "define_message ?w g fs =
    (Inr 16,
     ?w\<lparr>next_local_id := 16 + 1,
       local_message_types := (local_message_types ?w)(g \<mapsto> 16),
       data := data ?w @ [word_of_int (0x40 OR 16), 0, 0,
                         word_of_int g, word_of_int (drop_bit 8 g),
                         word_of_int (int (length fs))] @ field_bytes fs\<rparr>)"
    using define_message_ok[OF assms(3), of ?w] n by simp
  show ?thesis
    using a b
    by (simp add: field_bytes_def drop_bit_eq_div word_of_int_eq_iff take_bit_eq_mod)
qed

theorem define_seventeen_witness:
  "length sixteen_schemas = 16 \<and> list_all packable_schema sixteen_schemas \<and>
   packable 16 [(0, 1, 0)] \<and>
   fst (define_all FitWriter_init sixteen_schemas) =
     [Inr 0, Inr 1, Inr 2, Inr 3, Inr 4, Inr 5, Inr 6, Inr 7,
      Inr 8, Inr 9, Inr 10, Inr 11, Inr 12, Inr 13, Inr 14, Inr 15] \<and>
   fst (define_message (snd (define_all FitWriter_init sixteen_schemas)) 16 [(0, 1, 0)]) = Inr 16"
proof -
  have p: "packable 16 [(0, 1, 0)]"
    by (simp add: packable_def fits_u8_def)
  show ?thesis
    using define_seventeen [OF sixteen_schemas_facts p] sixteen_schemas_facts p
    by simp
qed

lemma small_id_cases:
  "0 \<le> (n::int) \<Longrightarrow> n \<le> 15
   \<Longrightarrow> n \<in> {0, 1, 2, 3, 4, 5, 6, 7, 8, 9, 10, 11, 12, 13, 14, 15}"
  by simp arith

lemma definition_header_bits:
  assumes "0 \<le> (n::int)" "n \<le> 15"
  shows "\<not> bit (word_of_int (0x40 OR n) :: byte) 7 \<and> bit (word_of_int (0x40 OR n) :: byte) 6 \<and>
         \<not> bit (word_of_int (0x40 OR n) :: byte) 5 \<and> \<not> bit (word_of_int (0x40 OR n) :: byte) 4 \<and>
         uint ((word_of_int (0x40 OR n) :: byte) AND 0xF) = n"
  using small_id_cases[OF assms] by (elim insertE emptyE) simp_all

lemma data_header_bits:
  assumes "0 \<le> (n::int)" "n \<le> 15"
  shows "\<not> bit (word_of_int n :: byte) 7 \<and> \<not> bit (word_of_int n :: byte) 6 \<and>
         \<not> bit (word_of_int n :: byte) 5 \<and> \<not> bit (word_of_int n :: byte) 4 \<and>
         uint ((word_of_int n :: byte) AND 0xF) = n"
  using small_id_cases[OF assms] by (elim insertE emptyE) simp_all

text \<open>
  Claim C2, as stated, at the first definition on a new writer: the first byte of the
  record is \<open>0x40\<close>, so bit 7 is clear and the bit that marks the definition is bit 6.
\<close>

theorem definition_marker_is_bit_6:
  "data (snd (define_message FitWriter_init 0 [(0, 1, 0)])) ! 0 = 0x40 \<and>
   \<not> bit (data (snd (define_message FitWriter_init 0 [(0, 1, 0)])) ! 0) 7 \<and>
   bit (data (snd (define_message FitWriter_init 0 [(0, 1, 0)])) ! 0) 6"
  by (simp add: define_message_def FitWriter_init_def Let_def)

text \<open>
  Claim C2, amended. With stream ids from 0 to 15: the first byte of a definition record
  appended by \<open>define_message\<close> is \<open>0x40 | stream id\<close>, that is bit 6 set (the mark of a
  definition), bits 7, 5 and 4 clear and bits 3 to 0 equal to the assigned stream id;
  the first byte of a data record appended by \<open>write_data_message\<close> is the stream id
  looked up for the message number, that is bits 7 to 4 clear (bit 6 clear marks the
  data record) and bits 3 to 0 equal to that stream id. The first byte of a record
  is the byte at the position that was the length of the buffer before the call.
\<close>

theorem record_header_bits:
  "(packable g fs \<and> 0 \<le> next_local_id w \<and> next_local_id w \<le> 15 \<longrightarrow>
      fst (define_message w g fs) = Inr (next_local_id w) \<and>
      (let h = data (snd (define_message w g fs)) ! length (data w)
       in h = word_of_int (0x40 OR next_local_id w) \<and>
          \<not> bit h 7 \<and> bit h 6 \<and> \<not> bit h 5 \<and> \<not> bit h 4 \<and>
          uint (h AND 0xF) = next_local_id w)) \<and>
   (local_message_types w g = Some sid \<and> 0 \<le> sid \<and> sid \<le> 15 \<longrightarrow>
      fst (write_data_message w g vs) = Inr () \<and>
      (let h = data (snd (write_data_message w g vs)) ! length (data w)
       in h = word_of_int sid \<and>
          \<not> bit h 7 \<and> \<not> bit h 6 \<and> \<not> bit h 5 \<and> \<not> bit h 4 \<and>
          uint (h AND 0xF) = sid))"
proof (intro conjI impI)
  assume a: "packable g fs \<and> 0 \<le> next_local_id w \<and> next_local_id w \<le> 15"
  then have p: "packable g fs" and n: "0 \<le> next_local_id w" "next_local_id w \<le> 255"
    by simp_all
  show "fst (define_message w g fs) = Inr (next_local_id w)"
    using define_message_ok[OF p n] by simp
  have "data (snd (define_message w g fs)) ! length (data w) =
          word_of_int (0x40 OR next_local_id w)"
    using define_message_ok[OF p n] by simp
  then show "let h = data (snd (define_message w g fs)) ! length (data w)
       in h = word_of_int (0x40 OR next_local_id w) \<and>
          \<not> bit h 7 \<and> bit h 6 \<and> \<not> bit h 5 \<and> \<not> bit h 4 \<and>
          uint (h AND 0xF) = next_local_id w"
    using definition_header_bits[of "next_local_id w"] a by (simp add: Let_def)
next
  assume a: "local_message_types w g = Some sid \<and> 0 \<le> sid \<and> sid \<le> 15"
  then have w: "write_data_message w g vs =
      (Inr (), w\<lparr>data := (data w @ [word_of_int sid]) @ concat vs\<rparr>)"
    by (simp add: write_data_message_def extend_values_concat)
  then show "fst (write_data_message w g vs) = Inr ()"
    by simp
  have "data (snd (write_data_message w g vs)) ! length (data w) = word_of_int sid"
    using w by (simp add: nth_append)
  then show "let h = data (snd (write_data_message w g vs)) ! length (data w)
       in h = word_of_int sid \<and>
          \<not> bit h 7 \<and> \<not> bit h 6 \<and> \<not> bit h 5 \<and> \<not> bit h 4 \<and>
          uint (h AND 0xF) = sid"
    using data_header_bits[of sid] a by (simp add: Let_def)
qed

theorem record_header_bits_witness:
  "fst (define_message FitWriter_init 0 [(0, 1, 0)]) = Inr 0 \<and>
   data (snd (define_message FitWriter_init 0 [(0, 1, 0)])) ! 0 = 0x40 \<and>
   fst (write_data_message (snd (define_message FitWriter_init 0 [(0, 1, 0)])) 0 [ [5] ]) = Inr () \<and>
   data (snd (write_data_message (snd (define_message FitWriter_init 0 [(0, 1, 0)])) 0 [ [5] ])) ! 9
     = 0"
proof -
  let ?w = "snd (define_message FitWriter_init 0 [(0, 1, 0)])"
  have p: "packable 0 [(0, 1, 0)]"
    by (simp add: packable_def fits_u8_def)
  have i: "next_local_id FitWriter_init = 0" "length (data FitWriter_init) = 0"
    by (simp_all add: FitWriter_init_def)
  have m: "local_message_types ?w 0 = Some 0" "length (data ?w) = 9"
    by (simp_all add: define_message_def FitWriter_init_def Let_def)
  show ?thesis
    using record_header_bits [where g = 0 and fs = "[(0, 1, 0)]" and w = FitWriter_init]
          record_header_bits [where g = 0 and w = ?w and sid = 0 and vs = "[ [5] ]"] p i m
    by (simp add: Let_def)
qed

text \<open>The invariant holds on the new writer, and every call keeps it.\<close>

lemma step_counter_mono: "next_local_id w \<le> next_local_id (step w c)"
  by (cases c) (simp_all add: define_message_counter write_data_message_counter finalize_state)

lemma define_message_inv:
  assumes "writer_inv w"
  shows "writer_inv (snd (define_message w g fs))"
proof -
  let ?m = "local_message_types w" and ?n = "next_local_id w"
  from assms have u: "\<And>a b i. ?m a = Some i \<Longrightarrow> ?m b = Some i \<Longrightarrow> a = b"
    and l: "\<And>a i. ?m a = Some i \<Longrightarrow> i < ?n"
    unfolding writer_inv_def ids_unique_def ids_below_counter_def by blast+
  have "ids_unique (snd (define_message w g fs))"
    unfolding ids_unique_def define_message_types
  proof (intro allI impI, elim conjE)
    fix a b i
    assume a: "(?m(g \<mapsto> ?n)) a = Some i" and b: "(?m(g \<mapsto> ?n)) b = Some i"
    show "a = b"
    proof (cases "a = g")
      case True
      then have i: "i = ?n" using a by simp
      show ?thesis
      proof (cases "b = g")
        case True
        with \<open>a = g\<close> show ?thesis by simp
      next
        case False
        then have "?m b = Some ?n" using b i by simp
        then have "?n < ?n" by (rule l)
        then show ?thesis by simp
      qed
    next
      case False
      then have ma: "?m a = Some i" using a by simp
      show ?thesis
      proof (cases "b = g")
        case True
        then have "i = ?n" using b by simp
        with ma have "?n < ?n" using l by blast
        then show ?thesis by simp
      next
        case False
        then have "?m b = Some i" using b by simp
        with ma show ?thesis by (rule u)
      qed
    qed
  qed
  moreover have "ids_below_counter (snd (define_message w g fs))"
    unfolding ids_below_counter_def define_message_types define_message_counter
  proof (intro allI impI)
    fix a i
    assume a: "(?m(g \<mapsto> ?n)) a = Some i"
    show "i < ?n + 1"
    proof (cases "a = g")
      case True
      then show ?thesis using a by simp
    next
      case False
      then have "?m a = Some i" using a by simp
      then have "i < ?n" by (rule l)
      then show ?thesis by simp
    qed
  qed
  ultimately show ?thesis by (simp add: writer_inv_def)
qed

lemma write_data_message_inv: "writer_inv w \<Longrightarrow> writer_inv (snd (write_data_message w g vs))"
  unfolding writer_inv_def ids_unique_def ids_below_counter_def
            write_data_message_types write_data_message_counter
  by simp

lemma step_inv: "writer_inv w \<Longrightarrow> writer_inv (step w c)"
  by (cases c) (simp_all add: define_message_inv write_data_message_inv finalize_state)

lemma foldl_step_inv: "writer_inv w \<Longrightarrow> writer_inv (foldl step w calls)"
  by (induction calls arbitrary: w) (simp_all add: step_inv)

lemma init_inv: "writer_inv FitWriter_init"
  by (simp add: writer_inv_def ids_unique_def ids_below_counter_def FitWriter_init_def)

lemma step_keeps_old_ids:
  assumes "local_message_types (step w c) g = Some i" and "i < next_local_id w"
  shows "local_message_types w g = Some i"
proof (cases c)
  case (Define m fs)
  with assms(1) have "((local_message_types w)(m \<mapsto> next_local_id w)) g = Some i"
    by (simp add: define_message_types)
  with assms(2) show ?thesis
    by (cases "g = m") simp_all
next
  case (Write m vs)
  with assms(1) show ?thesis by (simp add: write_data_message_types)
next
  case Finalize
  with assms(1) show ?thesis by (simp add: finalize_state)
qed

lemma foldl_step_keeps_old_ids:
  "local_message_types (foldl step w calls) g = Some i \<Longrightarrow> i < next_local_id w
   \<Longrightarrow> local_message_types w g = Some i"
proof (induction calls arbitrary: w)
  case Nil
  then show ?case by simp
next
  case (Cons c calls)
  have "i < next_local_id (step w c)"
    using Cons.prems(2) step_counter_mono[of w c] by simp
  moreover have "local_message_types (foldl step (step w c) calls) g = Some i"
    using Cons.prems(1) by simp
  ultimately have "local_message_types (step w c) g = Some i"
    by (rule Cons.IH[rotated])
  then show ?case
    using Cons.prems(2) by (rule step_keeps_old_ids)
qed

text \<open>
  Claim C8. In every state a session can reach (failed calls included), the invariant
  holds, so no stream id is held by two message numbers; a stream id held by a message
  number at some moment of the session is never held by another message number at any
  later moment; and \<open>define_message\<close>, \<open>write_data_message\<close> and \<open>finalize\<close> each keep
  the invariant, whatever they return.
\<close>

theorem stream_ids_never_shared:
  "writer_inv (run calls) \<and>
   (local_message_types (run calls) g = Some i \<and> local_message_types (run calls) g' = Some i
      \<longrightarrow> g' = g) \<and>
   (local_message_types (run calls) g = Some i \<and>
    local_message_types (run (calls @ calls')) g' = Some i \<longrightarrow> g' = g) \<and>
   (writer_inv w \<longrightarrow>
      writer_inv (snd (define_message w m fs)) \<and>
      writer_inv (snd (write_data_message w m vs)) \<and>
      writer_inv (snd (finalize w)))"
proof -
  have inv: "writer_inv (run calls)"
    unfolding run_def by (rule foldl_step_inv[OF init_inv])
  have same: "b = a"
    if "local_message_types (run calls) a = Some j"
       "local_message_types (run calls) b = Some j" for a b j
    using inv that unfolding writer_inv_def ids_unique_def by blast
  have later: "g' = g"
    if a: "local_message_types (run calls) g = Some i"
    and b: "local_message_types (run (calls @ calls')) g' = Some i"
  proof -
    have "i < next_local_id (run calls)"
      using inv a unfolding writer_inv_def ids_below_counter_def by blast
    moreover have "local_message_types (foldl step (run calls) calls') g' = Some i"
      using b by (simp add: run_def)
    ultimately have "local_message_types (run calls) g' = Some i"
      by (rule foldl_step_keeps_old_ids[rotated])
    with a show ?thesis by (rule same)
  qed
  have keep: "writer_inv w \<longrightarrow>
      writer_inv (snd (define_message w m fs)) \<and>
      writer_inv (snd (write_data_message w m vs)) \<and>
      writer_inv (snd (finalize w))"
    by (simp add: define_message_inv write_data_message_inv finalize_state)
  show ?thesis
    using inv same[of g i g'] later keep by blast
qed

theorem stream_ids_never_shared_witness:
  "local_message_types (run [Define 0 [(0, 1, 0)], Write 0 [ [5] ], Define 26 [(4, 1, 0)]]) 26
     = Some 1 \<and>
   local_message_types
     (run ([Define 0 [(0, 1, 0)], Write 0 [ [5] ], Define 26 [(4, 1, 0)]] @
           [Define 0 [(0, 1, 0)], Finalize])) 26 = Some 1 \<and>
   local_message_types
     (run ([Define 0 [(0, 1, 0)], Write 0 [ [5] ], Define 26 [(4, 1, 0)]] @
           [Define 0 [(0, 1, 0)], Finalize])) 0 = Some 2 \<and>
   writer_inv (run [Define 0 [(0, 1, 0)], Write 0 [ [5] ], Define 26 [(4, 1, 0)]]) \<and>
   writer_inv (snd (define_message
     (run [Define 0 [(0, 1, 0)], Write 0 [ [5] ], Define 26 [(4, 1, 0)]]) 0 [(0, 1, 0)]))"
proof -
  let ?cs = "[Define 0 [(0, 1, 0)], Write 0 [ [5] ], Define 26 [(4, 1, 0)]]"
  let ?cs' = "[Define 0 [(0, 1, 0)], Finalize]"
  have a: "local_message_types (run ?cs) 26 = Some 1"
    by (simp add: run_def FitWriter_init_def define_message_types define_message_counter
          write_data_message_types write_data_message_counter)
  have b: "local_message_types (run (?cs @ ?cs')) 26 = Some 1"
          "local_message_types (run (?cs @ ?cs')) 0 = Some 2"
    by (simp_all add: run_def FitWriter_init_def define_message_types define_message_counter
          write_data_message_types write_data_message_counter finalize_state)
  note t = stream_ids_never_shared
            [where calls = ?cs and calls' = ?cs' and g = 26 and g' = 26 and i = 1
               and w = "run ?cs" and m = 0 and fs = "[(0, 1, 0)]"]
  from t have inv: "writer_inv (run ?cs)" by (rule conjunct1)
  from t have "writer_inv (run ?cs) \<longrightarrow>
      writer_inv (snd (define_message (run ?cs) 0 [(0, 1, 0)]))"
    by blast
  with inv have "writer_inv (snd (define_message (run ?cs) 0 [(0, 1, 0)]))"
    by (rule rev_mp)
  with a b inv show ?thesis
    by (intro conjI)
qed

end
